theory Spec2Isabelle
  imports Complex_Main "HOL-Library.Word"
begin

unbundle bit_operations_syntax

section \<open>The deterministic allele selector\<close>

text \<open>
  The simulator \<^verbatim>\<open>umi-mut-sim.cpp\<close> reads a coordinate-sorted stream of aligned reads and
  a coordinate-sorted stream of variants, decides per read and variant whether the
  alternate allele is written into the read, and prints the read as FASTQ. This theory
  embeds its functions and the body of \<^verbatim>\<open>main\<close>.

  The fraction that the selector returns is the quotient of a 24-bit integer by \<open>2^24\<close>.
  The quotient is exact in binary floating point, so the C \<^verbatim>\<open>double\<close> is that rational
  number, and it is a rational number here. The allele fractions and their running sum
  are C \<^verbatim>\<open>double\<close>s whose additions round; they are values of a type \<open>'f\<close> here, and the
  three operations that the program performs on them are taken as they are, without any
  assumption on what they compute.
\<close>

text \<open>
  The arithmetic of \<^verbatim>\<open>double\<close> that the engine uses: the constant \<^verbatim>\<open>(double)0\<close>, the
  addition \<^verbatim>\<open>+=\<close>, and the comparison \<^verbatim>\<open>mutprob <= allelefrac\<close> of the selector's
  fraction with a \<^verbatim>\<open>double\<close>.
\<close>

record 'f double_ops =
  dzero :: 'f
  dadd :: "'f \<Rightarrow> 'f \<Rightarrow> 'f"
  dle :: "rat \<Rightarrow> 'f \<Rightarrow> bool"

text \<open>
  The arithmetic on the rational numbers. The running sums that occur in the sample
  inputs below are \<open>0 + 1/4\<close> and \<open>0 + 1/4 + 1/4\<close>, and the fractions compared with them
  are multiples of \<open>1/8\<close> between 0 and 1; on these the operations of \<^verbatim>\<open>double\<close> give what
  the rational ones give.
\<close>

definition exact_ops :: "rat double_ops" where
  "exact_ops = \<lparr>dzero = 0, dadd = (+), dle = (\<le>)\<rparr>"

text \<open>
  The argument of \<^verbatim>\<open>ispowerof2\<close> is a counter of the run; it is taken as an unbounded
  integer, on which the bitwise \<open>AND\<close> is the one of two's complement.
\<close>

definition ispowerof2 :: "int \<Rightarrow> bool" where
  "ispowerof2 n = (0 = (n AND (n - 1)))"

text \<open>
  \<^verbatim>\<open>strchr(str, c)\<close> on a NUL-terminated string: the suffix that starts at the first
  occurrence of \<open>c\<close>, or \<open>None\<close> for the null pointer.
\<close>

fun strchr :: "string \<Rightarrow> char \<Rightarrow> string option" where
  "strchr [] c = None"
| "strchr (x # xs) c = (if x = c then Some (x # xs) else strchr xs c)"

text \<open>The local \<^verbatim>\<open>umistr\<close> of \<^verbatim>\<open>umistr2prob\<close>: the string that is handed to the hash.\<close>

definition umistr :: "string \<Rightarrow> string" where
  "umistr str = (case strchr str CHR ''#'' of None \<Rightarrow> str | Some umistr1 \<Rightarrow> umistr1)"

text \<open>
  The two hash functions \<^verbatim>\<open>__ac_X31_hash_string\<close> and \<^verbatim>\<open>__ac_Wang_hash\<close> come from
  htslib's \<^verbatim>\<open>khash.h\<close>, a library header outside the program; they are parameters of
  the model. The result pairs the returned fraction with the value stored through the
  reference parameter \<^verbatim>\<open>umihash\<close>.
\<close>

definition umistr2prob ::
  "(string \<Rightarrow> 32 word) \<Rightarrow> (32 word \<Rightarrow> 32 word) \<Rightarrow> string \<Rightarrow> rat \<times> 32 word" where
  "umistr2prob ac_X31_hash_string ac_Wang_hash str =
     (let k = ac_Wang_hash (ac_X31_hash_string (umistr str) XOR 0)
      in (of_nat (unat (k AND 0xffffff)) / 0x1000000, k))"

section \<open>Reverse and complement\<close>

text \<open>
  The table \<^verbatim>\<open>THE_REV_COMPLEMENT.data\<close>: the identity on the 256 byte values, then eight
  entries overwritten in the order of the constructor.
\<close>

definition THE_REV_COMPLEMENT :: "nat \<Rightarrow> char" where
  "THE_REV_COMPLEMENT =
     (\<lambda>i. char_of i)
       (of_char CHR ''A'' := CHR ''T'',
        of_char CHR ''T'' := CHR ''A'',
        of_char CHR ''C'' := CHR ''G'',
        of_char CHR ''G'' := CHR ''C'',
        of_char CHR ''a'' := CHR ''t'',
        of_char CHR ''t'' := CHR ''a'',
        of_char CHR ''c'' := CHR ''g'',
        of_char CHR ''g'' := CHR ''c'')"

text \<open>
  \<^verbatim>\<open>complement\<close> replaces every position by its table entry; the positions are
  independent of each other, so the loop is a \<open>map\<close>. The source indexes the table with a
  plain \<^verbatim>\<open>char\<close>; the model indexes it with the byte value, which is the same index for
  every character below 128.
\<close>

definition complement :: "string \<Rightarrow> string" where
  "complement astring = map (\<lambda>a. THE_REV_COMPLEMENT (of_char a)) astring"

text \<open>The swap loop of \<^verbatim>\<open>reverse\<close>, with \<open>i\<close> the loop index and \<open>sz\<close> the size.\<close>

function reverse_loop :: "nat \<Rightarrow> nat \<Rightarrow> 'a list \<Rightarrow> 'a list" where
  "reverse_loop sz i astring =
     (if i < sz div 2
      then (let tmp = astring ! i;
                a1 = astring[i := astring ! (sz - 1 - i)];
                a2 = a1[sz - 1 - i := tmp]
            in reverse_loop sz (Suc i) a2)
      else astring)"
  by pat_completeness auto
termination
  by (relation "measure (\<lambda>(sz, i, a). sz div 2 - i)") auto

declare reverse_loop.simps [simp del]

definition reverse :: "'a list \<Rightarrow> 'a list" where
  "reverse astring = reverse_loop (length astring) 0 astring"

definition is_var1_before_var2 :: "int \<Rightarrow> int \<Rightarrow> int \<Rightarrow> int \<Rightarrow> bool" where
  "is_var1_before_var2 tid1 pos1 tid2 pos2 = ((tid1 < tid2) \<or> (tid1 = tid2 \<and> pos1 < pos2))"

section \<open>Records of the two input streams\<close>

text \<open>
  The alignment operations of the BAM format, \<^verbatim>\<open>MIDNSHP=XB\<close>, as htslib names them.
\<close>

datatype cigar_op =
    BAM_CMATCH | BAM_CINS | BAM_CDEL | BAM_CREF_SKIP | BAM_CSOFT_CLIP
  | BAM_CHARD_CLIP | BAM_CPAD | BAM_CEQUAL | BAM_CDIFF | BAM_CBACK

text \<open>
  The fields of a \<^verbatim>\<open>bam1_t\<close> that the program reads. \<open>bam_endpos\<close> is the value of htslib's
  function of that name. \<open>bam_get_seq b i\<close> is the decoded base
  \<^verbatim>\<open>seq_nt16_str[bam_seqi(bam_get_seq(b), i)]\<close> and \<open>bam_get_qual b i\<close> the byte
  \<^verbatim>\<open>bam_get_qual(b)[i]\<close>. Both are pointers in the source and are read without a bound
  check, so they are functions of the index here; \<open>core_l_qseq\<close> says how many positions
  belong to the read.
\<close>

record bam1 =
  core_flag :: "16 word"
  core_tid :: int
  core_pos :: int
  bam_endpos :: int
  core_l_qseq :: nat
  bam_get_qname :: string
  bam_get_cigar :: "(cigar_op \<times> nat) list"
  bam_get_seq :: "nat \<Rightarrow> char"
  bam_get_qual :: "nat \<Rightarrow> char"

text \<open>
  The fields of a \<^verbatim>\<open>bcf1_t\<close> that the program reads: \<open>allele_0\<close> and \<open>allele_1\<close> are
  \<^verbatim>\<open>d.allele[0]\<close> and \<^verbatim>\<open>d.allele[1]\<close>; \<open>FA\<close> is the value \<^verbatim>\<open>bcffloats[ndst_val - 1]\<close>
  fetched for the tag \<^verbatim>\<open>FA\<close> when \<^verbatim>\<open>ndst_val > 0\<close>, as the \<^verbatim>\<open>double\<close> that is added to the
  running sum, and \<open>None\<close> otherwise.
\<close>

record 'f bcf1 =
  rid :: int
  pos :: int
  allele_0 :: string
  allele_1 :: string
  FA :: "'f option"

section \<open>Emission\<close>

text \<open>
  \<^verbatim>\<open>abort()\<close> and a failed \<^verbatim>\<open>assert\<close> end the process; they are the error values of the
  model.
\<close>

datatype fatal = Abort_invalid_cigar | Assert_qual_seq_size | Assert_invalid_char

datatype gzfile = R1file | R2file

text \<open>
  One FASTQ record: the file it goes to and the three strings handed to \<^verbatim>\<open>gzprintf\<close>.
\<close>

record fastq =
  outfile :: gzfile
  line_name :: string
  line_seq :: string
  line_qual :: string

definition outfile_of :: "bam1 \<Rightarrow> gzfile" where
  "outfile_of aln =
     (if core_flag aln AND 0x40 \<noteq> 0 then R1file
      else if core_flag aln AND 0x80 \<noteq> 0 then R2file else R1file)"

text \<open>The test \<^verbatim>\<open>c > ' '\<close> of the two assertions, on a signed \<^verbatim>\<open>char\<close>.\<close>

definition gt_space :: "char \<Rightarrow> bool" where
  "gt_space c = (32 < (of_char c :: nat) \<and> (of_char c :: nat) < 128)"

text \<open>\<^verbatim>\<open>(char)(c + 33)\<close>: the sum is cut to a byte.\<close>

definition plus33 :: "char \<Rightarrow> char" where
  "plus33 c = char_of ((of_char c :: nat) + 33)"

definition bamrec_write_fastq_raw :: "bam1 \<Rightarrow> fatal + fastq" where
  "bamrec_write_fastq_raw aln =
     (let seq0 = map (bam_get_seq aln) [0 ..< core_l_qseq aln] in
      if \<not> list_all gt_space seq0 then Inl Assert_invalid_char
      else
        let seq1 = (if core_flag aln AND 0x10 \<noteq> 0 then complement (reverse seq0) else seq0);
            qual0 = map (\<lambda>i. plus33 (bam_get_qual aln i)) [0 ..< core_l_qseq aln];
            qual1 = (if core_flag aln AND 0x10 \<noteq> 0 then reverse qual0 else qual0)
        in Inr \<lparr>outfile = outfile_of aln, line_name = bam_get_qname aln,
                 line_seq = seq1, line_qual = qual1\<rparr>)"

definition bamrec_write_fastq :: "bam1 \<Rightarrow> string \<Rightarrow> string \<Rightarrow> fatal + fastq" where
  "bamrec_write_fastq aln seq qual =
     (if length qual \<noteq> length seq then Inl Assert_qual_seq_size
      else
        let qual0 = map plus33 qual;
            seq1 = (if core_flag aln AND 0x10 \<noteq> 0 then complement (reverse seq) else seq)
        in if \<not> list_all gt_space seq1 then Inl Assert_invalid_char
           else
             let qual1 = (if core_flag aln AND 0x10 \<noteq> 0 then reverse qual0 else qual0)
             in Inr \<lparr>outfile = outfile_of aln, line_name = bam_get_qname aln,
                      line_seq = seq1, line_qual = qual1\<rparr>)"

section \<open>The stream synchronizer\<close>

text \<open>
  The variables of \<^verbatim>\<open>main\<close> that follow the variant stream: the reader's record
  \<open>vcf_rec\<close>, the last return value \<open>vcf_read_ret\<close>, the records still to come from the file
  \<open>vcf_fp\<close>, and the window \<open>vcf_list\<close>.
\<close>

record 'f vcf_state =
  vcf_rec :: "'f bcf1"
  vcf_read_ret :: int
  vcf_fp :: "'f bcf1 list"
  vcf_list :: "'f bcf1 list"

text \<open>
  Modelled from the spec: htslib's reader \<^verbatim>\<open>vcf_read\<close>, a sequential reader that yields
  the next record of the source. It stores the next record in \<open>vcf_rec\<close> and returns 0, or
  returns -1 at the end of the stream and leaves \<open>vcf_rec\<close> as it was.
\<close>

definition vcf_read :: "'f vcf_state \<Rightarrow> 'f vcf_state" where
  "vcf_read s =
     (case vcf_fp s of
        [] \<Rightarrow> s\<lparr>vcf_read_ret := - 1\<rparr>
      | v # vs \<Rightarrow> s\<lparr>vcf_rec := v, vcf_read_ret := 0, vcf_fp := vs\<rparr>)"

text \<open>The first \<^verbatim>\<open>while\<close> loop of an iteration of \<^verbatim>\<open>main\<close> (skip-ahead).\<close>

function skip_ahead :: "bam1 \<Rightarrow> 'f vcf_state \<Rightarrow> 'f vcf_state" where
  "skip_ahead bam_rec s =
     (if is_var1_before_var2 (rid (vcf_rec s)) (pos (vcf_rec s)) (core_tid bam_rec) (core_pos bam_rec)
      then (let s1 = (if vcf_read_ret s \<noteq> - 1 then vcf_read s else s)
            in if vcf_read_ret s1 < 0 then s1 else skip_ahead bam_rec s1)
      else s)"
  by pat_completeness auto
termination
  by (relation "measure (\<lambda>(b, s). length (vcf_fp s))")
     (auto simp: vcf_read_def split: list.splits if_splits)

text \<open>
  The second loop (fetch-ahead): it reads the next record and then pushes a copy of the
  record it has just read.
\<close>

function fetch_ahead :: "bam1 \<Rightarrow> 'f vcf_state \<Rightarrow> 'f vcf_state" where
  "fetch_ahead bam_rec s =
     (if is_var1_before_var2 (rid (vcf_rec s)) (pos (vcf_rec s)) (core_tid bam_rec) (bam_endpos bam_rec)
      then (let s1 = (if vcf_read_ret s \<noteq> - 1 then vcf_read s else s)
            in if vcf_read_ret s1 < 0 then s1
               else fetch_ahead bam_rec (s1\<lparr>vcf_list := vcf_list s1 @ [vcf_rec s1]\<rparr>))
      else s)"
  by pat_completeness auto
termination
  by (relation "measure (\<lambda>(b, s). length (vcf_fp s))")
     (auto simp: vcf_read_def split: list.splits if_splits)

declare skip_ahead.simps [simp del] fetch_ahead.simps [simp del]

text \<open>The third loop (evict), on the window.\<close>

fun evict_front :: "bam1 \<Rightarrow> 'f bcf1 list \<Rightarrow> 'f bcf1 list" where
  "evict_front bam_rec [] = []"
| "evict_front bam_rec (v # vs) =
     (if is_var1_before_var2 (rid v) (pos v) (core_tid bam_rec) (core_pos bam_rec)
      then evict_front bam_rec vs else v # vs)"

definition synchronize :: "bam1 \<Rightarrow> 'f vcf_state \<Rightarrow> 'f vcf_state" where
  "synchronize bam_rec s =
     (let s1 = skip_ahead bam_rec s;
          s2 = fetch_ahead bam_rec s1
      in s2\<lparr>vcf_list := evict_front bam_rec (vcf_list s2)\<rparr>)"

text \<open>The state before the first read: \<^verbatim>\<open>rid = -1\<close>, \<^verbatim>\<open>pos = 0\<close>, an empty window.\<close>

definition vcf_init :: "'f bcf1 list \<Rightarrow> 'f vcf_state" where
  "vcf_init src =
     \<lparr>vcf_rec = \<lparr>rid = - 1, pos = 0, allele_0 = [], allele_1 = [], FA = None\<rparr>,
      vcf_read_ret = 0, vcf_fp = src, vcf_list = []\<rparr>"

section \<open>The read mutation engine\<close>

text \<open>
  The messages the engine writes to the standard error stream while it walks a read.
\<close>

datatype diag =
    Spiked_snv | Mnv_decomposed | Spiked_ins | Spiked_del | Failed_to_be_processed

text \<open>
  The variables of \<^verbatim>\<open>main\<close> that the walk over one read changes: the index \<open>j\<close> inside
  the current match operation, the two cursors, the window iterator \<open>vcf_rec_it\<close> (the part
  of the window from the iterator to the end), the two output buffers, the seven counters
  and the messages written so far. The index \<^verbatim>\<open>vcf_list_idx\<close> is only counted in the
  source and never read; it is left out.
\<close>

record 'f walk =
  j :: nat
  qpos :: nat
  rpos :: int
  vcf_rec_it :: "'f bcf1 list"
  newseq :: string
  newqual :: string
  num_kept_reads :: int
  num_kept_snv :: int
  num_kept_mnv :: int
  num_kept_ins :: int
  num_kept_del :: int
  num_skip_reads :: int
  num_skip_cmatches :: int
  stderr :: "diag list"

text \<open>\<^verbatim>\<open>s[k]\<close> on a NUL-terminated string, for \<open>k\<close> up to its length.\<close>

definition cstr_at :: "string \<Rightarrow> nat \<Rightarrow> char" where
  "cstr_at s k = (if k < length s then s ! k else char_of (0::nat))"

text \<open>The two \<^verbatim>\<open>push_back\<close> calls that copy the original base and quality at \<open>qpos\<close>.\<close>

definition push_original :: "bam1 \<Rightarrow> 'f walk \<Rightarrow> 'f walk" where
  "push_original bam_rec w =
     w\<lparr>newseq := newseq w @ [bam_get_seq bam_rec (qpos w)],
       newqual := newqual w @ [bam_get_qual bam_rec (qpos w)]\<rparr>"

text \<open>
  The body of \<^verbatim>\<open>if (mutprob <= allelefrac)\<close>: the five cases on the lengths of the two
  alleles, then \<^verbatim>\<open>num_kept_reads++\<close>.
\<close>

definition apply_variant :: "bam1 \<Rightarrow> nat \<Rightarrow> 'f bcf1 \<Rightarrow> 'f walk \<Rightarrow> 'f walk" where
  "apply_variant bam_rec cigar_oplen1 vcf_rec2 w =
     (let newref = allele_0 vcf_rec2;
          newalt = allele_1 vcf_rec2;
          w1 =
            (if 1 = length newref \<and> 1 = length newalt then
               (let w' = w\<lparr>newseq := newseq w @ [cstr_at newalt 0],
                          newqual := newqual w @ [bam_get_qual bam_rec (qpos w)],
                          num_kept_snv := num_kept_snv w + 1\<rparr>
                in if ispowerof2 (num_kept_snv w') then w'\<lparr>stderr := stderr w' @ [Spiked_snv]\<rparr> else w')
             else if length newref = length newalt then
               w\<lparr>stderr := stderr w @ [Mnv_decomposed],
                 newseq := newseq w @ [cstr_at newalt 0],
                 newqual := newqual w @ [bam_get_qual bam_rec (qpos w)],
                 num_kept_mnv := num_kept_mnv w + 1\<rparr>
             else if length newref = 1 \<and> length newalt > 1 then
               (let w' = w\<lparr>newseq := newseq w @ newalt,
                          newqual := newqual w @ [bam_get_qual bam_rec (qpos w)]
                                     @ replicate (length newalt - 1) (char_of (30::nat)),
                          num_kept_ins := num_kept_ins w + 1\<rparr>
                in if ispowerof2 (num_kept_ins w') then w'\<lparr>stderr := stderr w' @ [Spiked_ins]\<rparr> else w')
             else if length newref > 1 \<and> length newalt = 1 then
               (if length newref + j w < cigar_oplen1 then
                  (let w' = w\<lparr>j := j w + (length newref - 1),
                             qpos := qpos w + (length newref - 1),
                             rpos := rpos w + (int (length newref) - 1),
                             num_kept_del := num_kept_del w + 1\<rparr>
                   in if ispowerof2 (num_kept_del w') then w'\<lparr>stderr := stderr w' @ [Spiked_del]\<rparr> else w')
                else push_original bam_rec w)
             else w\<lparr>stderr := stderr w @ [Failed_to_be_processed]\<rparr>)
      in w1\<lparr>num_kept_reads := num_kept_reads w1 + 1\<rparr>)"

text \<open>The allele fraction that one record adds to the running \<^verbatim>\<open>allelefrac\<close>.\<close>

definition allelefrac_of :: "'f \<Rightarrow> 'f bcf1 \<Rightarrow> 'f" where
  "allelefrac_of defallelefrac vcf_rec2 =
     (case FA vcf_rec2 of Some fa \<Rightarrow> fa | None \<Rightarrow> defallelefrac)"

text \<open>
  The loop over the run \<^verbatim>\<open>[vcf_rec_it, vcf_rec_it_end)\<close>. The result pairs \<^verbatim>\<open>is_mutated\<close>
  with the state; \<open>allelefrac\<close> is the running sum, \<^verbatim>\<open>(double)0\<close> at the start.
\<close>

fun run_loop ::
  "'f double_ops \<Rightarrow> bam1 \<Rightarrow> rat \<Rightarrow> 'f \<Rightarrow> nat \<Rightarrow> 'f \<Rightarrow> 'f bcf1 list \<Rightarrow> 'f walk \<Rightarrow> bool \<times> 'f walk" where
  "run_loop dbl bam_rec mutprob defallelefrac cigar_oplen1 allelefrac [] w = (False, w)"
| "run_loop dbl bam_rec mutprob defallelefrac cigar_oplen1 allelefrac (vcf_rec2 # rest) w =
     (let allelefrac' = dadd dbl allelefrac (allelefrac_of defallelefrac vcf_rec2)
      in if dle dbl mutprob allelefrac'
         then (True, apply_variant bam_rec cigar_oplen1 vcf_rec2 w)
         else run_loop dbl bam_rec mutprob defallelefrac cigar_oplen1 allelefrac' rest w)"

text \<open>The loop that moves the window iterator past the records before \<open>rpos\<close>.\<close>

fun skip_before :: "int \<Rightarrow> int \<Rightarrow> 'f bcf1 list \<Rightarrow> 'f bcf1 list" where
  "skip_before tid rp [] = []"
| "skip_before tid rp (v # vs) =
     (if is_var1_before_var2 (rid v) (pos v) tid rp then skip_before tid rp vs else v # vs)"

text \<open>
  The loop that finds \<^verbatim>\<open>vcf_rec_it_end\<close>: the records from the iterator on that have the
  \<open>rid\<close> and \<open>pos\<close> of the record under the iterator.
\<close>

fun run_at :: "'f bcf1 \<Rightarrow> 'f bcf1 list \<Rightarrow> 'f bcf1 list" where
  "run_at v0 [] = []"
| "run_at v0 (v # vs) = (if rid v = rid v0 \<and> pos v = pos v0 then v # run_at v0 vs else [])"

text \<open>
  One pass through the body of the loop over \<open>j\<close> of a match operation, up to and
  including \<^verbatim>\<open>qpos++; rpos++\<close>.
\<close>

definition match_step :: "'f double_ops \<Rightarrow> bam1 \<Rightarrow> rat \<Rightarrow> 'f \<Rightarrow> nat \<Rightarrow> 'f walk \<Rightarrow> 'f walk" where
  "match_step dbl bam_rec mutprob defallelefrac cigar_oplen1 w =
     (let it = skip_before (core_tid bam_rec) (rpos w) (vcf_rec_it w);
          w0 = w\<lparr>vcf_rec_it := it\<rparr>;
          w2 =
            (case it of
               v0 # _ \<Rightarrow>
                 if rpos w = pos v0 then
                   (let (is_mutated, w1) =
                          run_loop dbl bam_rec mutprob defallelefrac cigar_oplen1 (dzero dbl)
                            (run_at v0 it) w0
                    in if \<not> is_mutated
                       then (push_original bam_rec w1)\<lparr>num_skip_reads := num_skip_reads w1 + 1\<rparr>
                       else w1)
                 else (push_original bam_rec w0)\<lparr>num_skip_cmatches := num_skip_cmatches w0 + 1\<rparr>
             | [] \<Rightarrow> (push_original bam_rec w0)\<lparr>num_skip_cmatches := num_skip_cmatches w0 + 1\<rparr>)
      in w2\<lparr>qpos := qpos w2 + 1, rpos := rpos w2 + 1\<rparr>)"

text \<open>The index \<open>j\<close> never goes back, which is why the loop over \<open>j\<close> ends.\<close>

lemma apply_variant_j: "j w \<le> j (apply_variant bam_rec n v w)"
  by (auto simp: apply_variant_def Let_def push_original_def)

lemma run_loop_j: "run_loop dbl bam_rec mp d n a vs w = (b, w') \<Longrightarrow> j w \<le> j w'"
  by (induction vs arbitrary: a) (auto simp: Let_def apply_variant_j split: if_splits)

lemma match_step_j: "j w \<le> j (match_step dbl bam_rec mp d n w)"
proof -
  let ?it = "skip_before (core_tid bam_rec) (rpos w) (vcf_rec_it w)"
  have "j w \<le> j w1"
    if "run_loop dbl bam_rec mp d n a vs (w\<lparr>vcf_rec_it := ?it\<rparr>) = (b, w1)" for a vs b w1
    using run_loop_j[OF that] by simp
  then show ?thesis
    by (auto simp: match_step_def Let_def push_original_def
             simp del: run_loop.simps run_at.simps
             split: list.splits prod.splits)
qed

text \<open>The loop \<^verbatim>\<open>for (int j = 0; j < cigar_oplen1; j++)\<close>, entered with \<open>j = 0\<close>.\<close>

function match_loop :: "'f double_ops \<Rightarrow> bam1 \<Rightarrow> rat \<Rightarrow> 'f \<Rightarrow> nat \<Rightarrow> 'f walk \<Rightarrow> 'f walk" where
  "match_loop dbl bam_rec mutprob defallelefrac cigar_oplen1 w =
     (if j w < cigar_oplen1
      then (let w1 = match_step dbl bam_rec mutprob defallelefrac cigar_oplen1 w
            in match_loop dbl bam_rec mutprob defallelefrac cigar_oplen1 (w1\<lparr>j := j w1 + 1\<rparr>))
      else w)"
  by pat_completeness auto
termination
proof (relation "measure (\<lambda>(dbl, b, mp, d, n, w). n - j w)")
  fix dbl :: "'f double_ops" and bam_rec :: bam1 and mutprob :: rat and defallelefrac :: 'f
    and cigar_oplen1 :: nat and w w1 :: "'f walk"
  assume "j w < cigar_oplen1" and "w1 = match_step dbl bam_rec mutprob defallelefrac cigar_oplen1 w"
  then show "((dbl, bam_rec, mutprob, defallelefrac, cigar_oplen1, w1\<lparr>j := j w1 + 1\<rparr>),
              (dbl, bam_rec, mutprob, defallelefrac, cigar_oplen1, w))
               \<in> measure (\<lambda>(dbl, b, mp, d, n, w). n - j w)"
    using match_step_j[of w dbl bam_rec mutprob defallelefrac cigar_oplen1] by simp
qed simp

declare match_loop.simps [simp del]

text \<open>The loop of an insertion operation, by the number of passes still to make.\<close>

fun ins_loop :: "bam1 \<Rightarrow> nat \<Rightarrow> 'f walk \<Rightarrow> 'f walk" where
  "ins_loop bam_rec 0 w = w"
| "ins_loop bam_rec (Suc n) w =
     ins_loop bam_rec n ((push_original bam_rec w)\<lparr>qpos := qpos w + 1\<rparr>)"

text \<open>The loop over the alignment operations of the read.\<close>

fun cigar_loop ::
  "'f double_ops \<Rightarrow> bam1 \<Rightarrow> rat \<Rightarrow> 'f \<Rightarrow> (cigar_op \<times> nat) list \<Rightarrow> 'f walk \<Rightarrow> fatal + 'f walk" where
  "cigar_loop dbl bam_rec mutprob defallelefrac [] w = Inr w"
| "cigar_loop dbl bam_rec mutprob defallelefrac ((cigar_op, cigar_oplen) # cs) w =
     (if cigar_op = BAM_CMATCH \<or> cigar_op = BAM_CEQUAL \<or> cigar_op = BAM_CDIFF then
        cigar_loop dbl bam_rec mutprob defallelefrac cs
          (match_loop dbl bam_rec mutprob defallelefrac cigar_oplen (w\<lparr>j := 0\<rparr>))
      else if cigar_op = BAM_CINS then
        cigar_loop dbl bam_rec mutprob defallelefrac cs (ins_loop bam_rec cigar_oplen w)
      else if cigar_op = BAM_CSOFT_CLIP then
        cigar_loop dbl bam_rec mutprob defallelefrac cs (w\<lparr>qpos := qpos w + cigar_oplen\<rparr>)
      else if cigar_op = BAM_CDEL then
        cigar_loop dbl bam_rec mutprob defallelefrac cs (w\<lparr>rpos := rpos w + int cigar_oplen\<rparr>)
      else if cigar_op = BAM_CHARD_CLIP then
        cigar_loop dbl bam_rec mutprob defallelefrac cs w
      else Inl Abort_invalid_cigar)"

text \<open>
  The engine on one read and one window: the buffers are cleared, the cursors are set to
  the start of the read and of the window, and the operations are walked.
\<close>

definition mutate ::
  "'f double_ops \<Rightarrow> bam1 \<Rightarrow> rat \<Rightarrow> 'f \<Rightarrow> 'f bcf1 list \<Rightarrow> 'f walk \<Rightarrow> fatal + 'f walk" where
  "mutate dbl bam_rec mutprob defallelefrac window w =
     cigar_loop dbl bam_rec mutprob defallelefrac (bam_get_cigar bam_rec)
       (w\<lparr>newseq := [], newqual := [], qpos := 0, rpos := core_pos bam_rec, vcf_rec_it := window\<rparr>)"

section \<open>The driver loop\<close>

text \<open>
  One iteration of the \<^verbatim>\<open>while\<close> loop of \<^verbatim>\<open>main\<close> on the read \<open>bam_rec\<close>: the state after
  it and the record written, or the fatal error that ends the process. The function
  \<^verbatim>\<open>bamrec_write_fastq\<close> changes its two string arguments in place; what it leaves in
  them are the two strings it prints.
\<close>

definition main_iter ::
  "'f double_ops \<Rightarrow> (string \<Rightarrow> 32 word) \<Rightarrow> (32 word \<Rightarrow> 32 word) \<Rightarrow> 'f \<Rightarrow> bam1
     \<Rightarrow> 'f vcf_state \<times> 'f walk \<Rightarrow> fatal + ('f vcf_state \<times> 'f walk) \<times> fastq option" where
  "main_iter dbl ac_X31_hash_string ac_Wang_hash defallelefrac bam_rec sw =
     (let (s, w) = sw in
      if 0 \<noteq> (core_flag bam_rec AND 0x900) then Inr ((s, w), None)
      else
        let s' = synchronize bam_rec s;
            (mutprob, umihash) = umistr2prob ac_X31_hash_string ac_Wang_hash (bam_get_qname bam_rec)
        in if length (vcf_list s') > 0 then
             (case mutate dbl bam_rec mutprob defallelefrac (vcf_list s') w of
                Inl e \<Rightarrow> Inl e
              | Inr w' \<Rightarrow>
                  (case bamrec_write_fastq bam_rec (newseq w') (newqual w') of
                     Inl e \<Rightarrow> Inl e
                   | Inr fq \<Rightarrow>
                       Inr ((s', w'\<lparr>newseq := line_seq fq, newqual := line_qual fq\<rparr>), Some fq)))
           else
             (case bamrec_write_fastq_raw bam_rec of
                Inl e \<Rightarrow> Inl e
              | Inr fq \<Rightarrow> Inr ((s', w\<lparr>newseq := [], newqual := []\<rparr>), Some fq)))"

fun main_loop ::
  "'f double_ops \<Rightarrow> (string \<Rightarrow> 32 word) \<Rightarrow> (32 word \<Rightarrow> 32 word) \<Rightarrow> 'f \<Rightarrow> bam1 list
     \<Rightarrow> 'f vcf_state \<times> 'f walk \<Rightarrow> fastq list \<Rightarrow> fatal + ('f vcf_state \<times> 'f walk) \<times> fastq list" where
  "main_loop dbl hs wh defallelefrac [] sw out = Inr (sw, out)"
| "main_loop dbl hs wh defallelefrac (bam_rec # rest) sw out =
     (case main_iter dbl hs wh defallelefrac bam_rec sw of
        Inl e \<Rightarrow> Inl e
      | Inr (sw', None) \<Rightarrow> main_loop dbl hs wh defallelefrac rest sw' out
      | Inr (sw', Some fq) \<Rightarrow> main_loop dbl hs wh defallelefrac rest sw' (out @ [fq]))"

text \<open>The variables of the walk before the first read: the counters are zero.\<close>

definition walk_init :: "'f walk" where
  "walk_init = \<lparr>j = 0, qpos = 0, rpos = 0, vcf_rec_it = [], newseq = [], newqual = [],
     num_kept_reads = 0, num_kept_snv = 0, num_kept_mnv = 0, num_kept_ins = 0, num_kept_del = 0,
     num_skip_reads = 0, num_skip_cmatches = 0, stderr = []\<rparr>"

section \<open>Auxiliary notions and sample inputs\<close>

text \<open>
  The number of query positions that the walk passes over: the lengths of the match,
  insertion and soft-clip operations, the ones on which \<open>qpos\<close> moves.
\<close>

fun query_consumed :: "(cigar_op \<times> nat) list \<Rightarrow> nat" where
  "query_consumed [] = 0"
| "query_consumed ((cigar_op, cigar_oplen) # cs) =
     (if cigar_op \<in> {BAM_CMATCH, BAM_CEQUAL, BAM_CDIFF, BAM_CINS, BAM_CSOFT_CLIP}
      then cigar_oplen else 0) + query_consumed cs"

text \<open>
  The state of a walk that has copied the read up to \<open>qpos\<close> and has no variant left
  under its iterator.
\<close>

definition copied :: "bam1 \<Rightarrow> 'f walk \<Rightarrow> bool" where
  "copied b w =
     (vcf_rec_it w = [] \<and> newseq w = map (bam_get_seq b) [0 ..< qpos w] \<and>
      newqual w = map (bam_get_qual b) [0 ..< qpos w])"

text \<open>
  Sample reads on contig 0 with the bases \<open>ACGTA\<close> and the raw qualities 53 to 57, and
  sample variants with the explicit allele fraction \<open>1/4\<close>. The end position of each read
  is its start plus the reference length of its operations.
\<close>

definition ex_read :: bam1 where
  "ex_read = \<lparr>core_flag = 0, core_tid = 0, core_pos = 100, bam_endpos = 105, core_l_qseq = 5,
     bam_get_qname = ''r1#ACGT'', bam_get_cigar = [(BAM_CMATCH, 5)],
     bam_get_seq = (\<lambda>i. ''ACGTA'' ! i), bam_get_qual = (\<lambda>i. ''56789'' ! i)\<rparr>"

definition ex_variant :: "int \<Rightarrow> string \<Rightarrow> string \<Rightarrow> rat bcf1" where
  "ex_variant p r a = \<lparr>rid = 0, pos = p, allele_0 = r, allele_1 = a, FA = Some (1 / 4)\<rparr>"


definition ex_read_rev :: bam1 where
  "ex_read_rev = \<lparr>core_flag = 0x10, core_tid = 0, core_pos = 100, bam_endpos = 104, core_l_qseq = 5,
     bam_get_qname = ''r4#ACGT'', bam_get_cigar = [(BAM_CMATCH, 2), (BAM_CINS, 1), (BAM_CMATCH, 2)],
     bam_get_seq = (\<lambda>i. ''ACGTA'' ! i), bam_get_qual = (\<lambda>i. ''56789'' ! i)\<rparr>"

definition ex_read_clip :: bam1 where
  "ex_read_clip = \<lparr>core_flag = 0, core_tid = 0, core_pos = 100, bam_endpos = 104, core_l_qseq = 5,
     bam_get_qname = ''r5#ACGT'', bam_get_cigar = [(BAM_CSOFT_CLIP, 1), (BAM_CMATCH, 4)],
     bam_get_seq = (\<lambda>i. ''ACGTA'' ! i), bam_get_qual = (\<lambda>i. ''56789'' ! i)\<rparr>"

definition ex_read_skip :: bam1 where
  "ex_read_skip = \<lparr>core_flag = 0, core_tid = 0, core_pos = 100, bam_endpos = 115, core_l_qseq = 5,
     bam_get_qname = ''r3#ACGT'', bam_get_cigar = [(BAM_CMATCH, 2), (BAM_CREF_SKIP, 10), (BAM_CMATCH, 3)],
     bam_get_seq = (\<lambda>i. ''ACGTA'' ! i), bam_get_qual = (\<lambda>i. ''56789'' ! i)\<rparr>"


section \<open>Properties of the allele selector\<close>

lemma strchr_found: "c \<notin> set pre \<Longrightarrow> strchr (pre @ c # rest) c = Some (c # rest)"
  by (induction pre) auto

lemma strchr_absent: "c \<notin> set str \<Longrightarrow> strchr str c = None"
  by (induction str) auto

lemma low24_eq_take_bit: "(k::32 word) AND 0xffffff = take_bit 24 k"
proof -
  have "(0xffffff :: 32 word) = mask 24" by (simp add: mask_eq_exp_minus_1)
  then show ?thesis by (simp add: take_bit_eq_mask)
qed

lemma low24_less: "unat ((k::32 word) AND 0xffffff) < 0x1000000"
proof -
  have "unat (take_bit 24 k) = take_bit 24 (unat k)" by (simp add: unsigned_take_bit_eq)
  also have "\<dots> < 2 ^ 24" by (rule take_bit_nat_less_exp)
  finally show ?thesis by (simp add: low24_eq_take_bit)
qed

lemma low24_fraction:
  "0 \<le> (of_nat (unat ((k::32 word) AND 0xffffff)) :: rat) / 0x1000000 \<and>
   (of_nat (unat (k AND 0xffffff)) :: rat) / 0x1000000 < 1"
proof -
  have "(of_nat (unat (k AND 0xffffff)) :: rat) < of_nat 0x1000000"
    using low24_less[of k] by (simp only: of_nat_less_iff)
  moreover have "(0::rat) \<le> of_nat (unat (k AND 0xffffff))"
    by (rule of_nat_0_le_iff)
  ultimately show ?thesis by simp
qed

text \<open>
  Claim C2, as the code has it. For an identifier that contains \<open>#\<close>, the string that is
  hashed is the part of the identifier that starts at the first \<open>#\<close> and runs to the end
  (the \<open>#\<close> included), and the seed is the mixed hash of that part; the part before the
  \<open>#\<close> plays no role. For an identifier without \<open>#\<close>, the whole identifier is
  hashed.
\<close>

theorem umistr2prob_hashes_from_first_hash:
  "(CHR ''#'' \<notin> set pre \<longrightarrow>
      umistr (pre @ CHR ''#'' # rest) = CHR ''#'' # rest \<and>
      snd (umistr2prob h w (pre @ CHR ''#'' # rest)) = w (h (CHR ''#'' # rest))) \<and>
   (CHR ''#'' \<notin> set str \<longrightarrow>
      umistr str = str \<and> snd (umistr2prob h w str) = w (h str))"
  by (simp add: umistr_def umistr2prob_def Let_def strchr_found strchr_absent)

theorem umistr2prob_hashes_from_first_hash_witness:
  "CHR ''#'' \<notin> set ''r1'' \<and>
   umistr ''r1#ACGT'' = ''#ACGT'' \<and>
   snd (umistr2prob (\<lambda>s. of_nat (length s)) (\<lambda>k. k + 1) ''r1#ACGT'') = 6 \<and>
   CHR ''#'' \<notin> set ''read7'' \<and>
   umistr ''read7'' = ''read7'' \<and>
   snd (umistr2prob (\<lambda>s. of_nat (length s)) (\<lambda>k. k + 1) ''read7'') = 6"
  using umistr2prob_hashes_from_first_hash
    [of "''r1''" "''ACGT''" "\<lambda>s. of_nat (length s)" "\<lambda>k. k + 1" "''read7''"]
  by simp

text \<open>
  Claim C2 as it is written says that the part strictly before the first \<open>#\<close> is hashed.
  For the identifier \<open>r1#ACGT\<close> the string handed to the hash is \<open>#ACGT\<close>, not
  \<open>r1\<close>.
\<close>

theorem umistr_prefix_counterexample:
  "umistr ''r1#ACGT'' = ''#ACGT'' \<and> umistr ''r1#ACGT'' \<noteq> ''r1''"
  by (simp add: umistr_def)

text \<open>
  Claim C9. For every identifier the returned fraction is the low 24 bits of the seed
  divided by \<open>0x1000000\<close>; it is at least 0 and less than 1; and equal identifiers give
  equal pairs of fraction and seed.
\<close>

theorem umistr2prob_fraction:
  "fst (umistr2prob h w str) =
     of_nat (unat (snd (umistr2prob h w str) AND 0xffffff)) / 0x1000000 \<and>
   0 \<le> fst (umistr2prob h w str) \<and> fst (umistr2prob h w str) < 1 \<and>
   (str' = str \<longrightarrow> umistr2prob h w str' = umistr2prob h w str)"
  using low24_fraction[of "w (h (umistr str))"]
  by (simp add: umistr2prob_def Let_def)

theorem umistr2prob_fraction_witness:
  "fst (umistr2prob (\<lambda>s. of_nat (length s)) (\<lambda>k. k + 1) ''r1#ACGT'') = 6 / 0x1000000 \<and>
   0 \<le> fst (umistr2prob (\<lambda>s. of_nat (length s)) (\<lambda>k. k + 1) ''r1#ACGT'') \<and>
   fst (umistr2prob (\<lambda>s. of_nat (length s)) (\<lambda>k. k + 1) ''r1#ACGT'') < 1 \<and>
   umistr2prob (\<lambda>s. of_nat (length s)) (\<lambda>k. k + 1) ''r1#ACGT''
     = umistr2prob (\<lambda>s. of_nat (length s)) (\<lambda>k. k + 1) ''r1#ACGT''"
  using umistr2prob_fraction
    [of "\<lambda>s. of_nat (length s)" "\<lambda>k. k + 1" "''r1#ACGT''" "''r1#ACGT''"]
  by (simp add: umistr2prob_def umistr_def)

section \<open>Properties of reverse and complement\<close>

lemma reverse_loop_length: "length (reverse_loop sz i a) = length a"
  by (induction sz i a rule: reverse_loop.induct) (subst reverse_loop.simps, simp add: Let_def)

lemma reverse_loop_nth:
  "sz = length a \<Longrightarrow> i \<le> sz div 2 \<Longrightarrow> k < sz \<Longrightarrow>
   reverse_loop sz i a ! k = (if i \<le> k \<and> k + i < sz then a ! (sz - 1 - k) else a ! k)"
proof (induction sz i a arbitrary: k rule: reverse_loop.induct)
  case (1 sz i a)
  show ?case
  proof (cases "i < sz div 2")
    case False
    with "1.prems" have "i = sz div 2" by simp
    then have "i \<le> k \<and> k + i < sz \<Longrightarrow> sz - 1 - k = k" by presburger
    with False show ?thesis by (subst reverse_loop.simps) auto
  next
    case True
    let ?a2 = "(a[i := a ! (sz - 1 - i)])[sz - 1 - i := a ! i]"
    have len: "sz = length ?a2" using "1.prems" by simp
    have step: "reverse_loop sz i a = reverse_loop sz (Suc i) ?a2"
      using True by (subst reverse_loop.simps) (simp add: Let_def)
    have IH: "reverse_loop sz (Suc i) ?a2 ! k =
        (if Suc i \<le> k \<and> k + Suc i < sz then ?a2 ! (sz - 1 - k) else ?a2 ! k)"
      using "1.IH"[OF True refl refl refl len _ "1.prems"(3)] True by simp
    show ?thesis
      unfolding step IH using True "1.prems"
      by (auto simp: nth_list_update)
  qed
qed

lemma reverse_eq_rev: "reverse a = rev a"
  by (rule nth_equalityI) (simp_all add: reverse_def reverse_loop_length reverse_loop_nth rev_nth)

lemma complement_twice_acgt:
  "a \<in> set ''ACGTacgt'' \<Longrightarrow> THE_REV_COMPLEMENT (of_char (THE_REV_COMPLEMENT (of_char a))) = a"
  by (auto simp: THE_REV_COMPLEMENT_def)

text \<open>
  Claim C8. For every string over the letters \<open>A\<close>, \<open>C\<close>, \<open>G\<close>, \<open>T\<close> and their
  lowercase forms, reversing and complementing it twice gives the string back.
\<close>

theorem reverse_complement_involution:
  assumes "set s \<subseteq> set ''ACGTacgt''"
  shows "complement (reverse (complement (reverse s))) = s"
proof -
  have "map (\<lambda>a. THE_REV_COMPLEMENT (of_char (THE_REV_COMPLEMENT (of_char a)))) s = map (\<lambda>a. a) s"
    using assms by (intro map_cong refl complement_twice_acgt) auto
  then show ?thesis
    by (simp add: complement_def reverse_eq_rev rev_map comp_def)
qed

theorem reverse_complement_involution_witness:
  "set ''GATtaca'' \<subseteq> set ''ACGTacgt'' \<and>
   complement (reverse (complement (reverse ''GATtaca''))) = ''GATtaca''"
proof -
  have h: "set ''GATtaca'' \<subseteq> set ''ACGTacgt''" by simp
  show ?thesis using h reverse_complement_involution[OF h] by simp
qed

section \<open>Properties of the stream synchronizer\<close>

text \<open>
  Claim C1 says that the window holds every variant of the source that lies in
  \<open>[start, end)\<close> of the read before the read is mutated. The read \<open>ex_read\<close> covers
  \<open>[100, 105)\<close> and the source holds a variant at 102 and one at 300. Skip-ahead reads
  the variant at 102 into \<open>vcf_rec\<close>; fetch-ahead finds it before the end of the read,
  reads the next record over it and pushes that one. The window is the variant at 300
  alone, and the read is written unchanged although its fraction 0 passes the test of the
  variant at 102.
\<close>

theorem synchronize_loses_first_variant:
  "core_pos ex_read \<le> pos (ex_variant 102 ''G'' ''T'') \<and>
   pos (ex_variant 102 ''G'' ''T'') < bam_endpos ex_read \<and>
   vcf_list (synchronize ex_read (vcf_init [ex_variant 102 ''G'' ''T'', ex_variant 300 ''A'' ''C'']))
     = [ex_variant 300 ''A'' ''C''] \<and>
   main_iter exact_ops (\<lambda>s. 0) (\<lambda>k. k) (1 / 10) ex_read
       (vcf_init [ex_variant 102 ''G'' ''T'', ex_variant 300 ''A'' ''C''], walk_init) =
     Inr ((\<lparr>vcf_rec = ex_variant 300 ''A'' ''C'', vcf_read_ret = 0, vcf_fp = [],
             vcf_list = [ex_variant 300 ''A'' ''C'']\<rparr>,
           walk_init\<lparr>j := 5, qpos := 5, rpos := 105, vcf_rec_it := [ex_variant 300 ''A'' ''C''],
             newseq := ''ACGTA'', newqual := ''VWXYZ'', num_skip_cmatches := 5\<rparr>),
          Some \<lparr>outfile = R1file, line_name = ''r1#ACGT'', line_seq = ''ACGTA'', line_qual = ''VWXYZ''\<rparr>)"
  by code_simp

section \<open>Properties of the fraction test\<close>

lemma run_loop_first:
  "i < length run \<Longrightarrow>
   dle dbl mp (foldl (dadd dbl) a (map (allelefrac_of d) (take (Suc i) run))) \<Longrightarrow>
   (\<forall>k<i. \<not> dle dbl mp (foldl (dadd dbl) a (map (allelefrac_of d) (take (Suc k) run)))) \<Longrightarrow>
   run_loop dbl b mp d n a run w = (True, apply_variant b n (run ! i) w)"
proof (induction run arbitrary: a i)
  case Nil
  then show ?case by simp
next
  case (Cons v vs)
  show ?case
  proof (cases i)
    case 0
    with Cons.prems show ?thesis by (simp add: Let_def)
  next
    case (Suc i')
    from Cons.prems(3) Suc have first: "\<not> dle dbl mp (dadd dbl a (allelefrac_of d v))"
      by (auto dest: spec[of _ 0])
    have len: "i' < length vs" using Cons.prems(1) Suc by simp
    have hit: "dle dbl mp (foldl (dadd dbl) (dadd dbl a (allelefrac_of d v))
                 (map (allelefrac_of d) (take (Suc i') vs)))"
      using Cons.prems(2) Suc by simp
    have miss: "\<forall>k<i'. \<not> dle dbl mp (foldl (dadd dbl) (dadd dbl a (allelefrac_of d v))
                 (map (allelefrac_of d) (take (Suc k) vs)))"
    proof (intro allI impI)
      fix k assume "k < i'"
      then have "Suc k < i" using Suc by simp
      with Cons.prems(3)
      have "\<not> dle dbl mp (foldl (dadd dbl) a (map (allelefrac_of d) (take (Suc (Suc k)) (v # vs))))"
        by blast
      then show "\<not> dle dbl mp (foldl (dadd dbl) (dadd dbl a (allelefrac_of d v))
                 (map (allelefrac_of d) (take (Suc k) vs)))"
        by simp
    qed
    from Cons.IH[OF len hit miss] first Suc show ?thesis by (simp add: Let_def)
  qed
qed

lemma run_loop_none:
  "(\<forall>k<length run. \<not> dle dbl mp (foldl (dadd dbl) a (map (allelefrac_of d) (take (Suc k) run)))) \<Longrightarrow>
   run_loop dbl b mp d n a run w = (False, w)"
proof (induction run arbitrary: a)
  case Nil
  then show ?case by simp
next
  case (Cons v vs)
  from Cons.prems have first: "\<not> dle dbl mp (dadd dbl a (allelefrac_of d v))"
    by (auto dest: spec[of _ 0])
  have rest: "\<forall>k<length vs. \<not> dle dbl mp (foldl (dadd dbl) (dadd dbl a (allelefrac_of d v))
                 (map (allelefrac_of d) (take (Suc k) vs)))"
  proof (intro allI impI)
    fix k assume "k < length vs"
    then have "Suc k < length (v # vs)" by simp
    with Cons.prems
    have "\<not> dle dbl mp (foldl (dadd dbl) a (map (allelefrac_of d) (take (Suc (Suc k)) (v # vs))))"
      by blast
    then show "\<not> dle dbl mp (foldl (dadd dbl) (dadd dbl a (allelefrac_of d v))
                 (map (allelefrac_of d) (take (Suc k) vs)))"
      by simp
  qed
  from Cons.IH[OF rest] first show ?case by (simp add: Let_def)
qed

text \<open>
  Claim C3, as the code has it. The variants of a run are tried in window order against
  a running sum. The running sum at index \<open>i\<close> is what the program has accumulated when
  it tests the variant at index \<open>i\<close>: it starts from \<^verbatim>\<open>(double)0\<close> and adds, with the
  addition of \<^verbatim>\<open>double\<close> and in window order, the allele fractions of the variants at
  indices \<open>0\<close> to \<open>i\<close> of the run (each its explicit value, or the default). The variant at
  index \<open>i\<close> is applied exactly when the shared fraction is at most the running sum at
  \<open>i\<close> and is not at most the running sum at any smaller index; no later variant is tried.
  When the shared fraction is not at most the running sum at any index of the run, no
  variant is applied. This holds whatever the addition and the comparison of \<^verbatim>\<open>double\<close>
  compute.
\<close>

theorem run_loop_cumulative_test:
  "(i < length run \<and>
    dle dbl mutprob (foldl (dadd dbl) (dzero dbl) (map (allelefrac_of d) (take (Suc i) run))) \<and>
    (\<forall>k<i. \<not> dle dbl mutprob
               (foldl (dadd dbl) (dzero dbl) (map (allelefrac_of d) (take (Suc k) run))))
      \<longrightarrow> run_loop dbl b mutprob d n (dzero dbl) run w = (True, apply_variant b n (run ! i) w)) \<and>
   ((\<forall>k<length run'. \<not> dle dbl mutprob'
               (foldl (dadd dbl) (dzero dbl) (map (allelefrac_of d) (take (Suc k) run'))))
      \<longrightarrow> run_loop dbl b mutprob' d n (dzero dbl) run' w = (False, w))"
  using run_loop_first[where i = i and run = run and mp = mutprob and a = "dzero dbl" and dbl = dbl
          and d = d and b = b and n = n and w = w]
    run_loop_none[where run = run' and mp = mutprob' and a = "dzero dbl" and dbl = dbl
          and d = d and b = b and n = n and w = w]
  by simp

theorem run_loop_cumulative_test_witness:
  "Suc 0 < length [ex_variant 101 ''C'' ''G'', ex_variant 101 ''C'' ''T''] \<and>
   dle exact_ops (3 / 8) (foldl (dadd exact_ops) (dzero exact_ops) (map (allelefrac_of (1 / 10))
        (take (Suc (Suc 0)) [ex_variant 101 ''C'' ''G'', ex_variant 101 ''C'' ''T'']))) \<and>
   \<not> dle exact_ops (3 / 8) (foldl (dadd exact_ops) (dzero exact_ops) (map (allelefrac_of (1 / 10))
        (take (Suc 0) [ex_variant 101 ''C'' ''G'', ex_variant 101 ''C'' ''T'']))) \<and>
   run_loop exact_ops ex_read (3 / 8) (1 / 10) 5 (dzero exact_ops)
       [ex_variant 101 ''C'' ''G'', ex_variant 101 ''C'' ''T''] walk_init
     = (True, apply_variant ex_read 5 (ex_variant 101 ''C'' ''T'') walk_init) \<and>
   \<not> dle exact_ops (7 / 8) (foldl (dadd exact_ops) (dzero exact_ops) (map (allelefrac_of (1 / 10))
        (take (Suc 0) [ex_variant 101 ''C'' ''G'']))) \<and>
   run_loop exact_ops ex_read (7 / 8) (1 / 10) 5 (dzero exact_ops) [ex_variant 101 ''C'' ''G''] walk_init
     = (False, walk_init)"
  using run_loop_cumulative_test
    [where i = "Suc 0" and run = "[ex_variant 101 ''C'' ''G'', ex_variant 101 ''C'' ''T'']"
       and mutprob = "3 / 8" and d = "1 / 10" and dbl = exact_ops and b = ex_read and n = 5
       and w = walk_init and run' = "[ex_variant 101 ''C'' ''G'']" and mutprob' = "7 / 8"]
  by (simp add: allelefrac_of_def ex_variant_def exact_ops_def)

text \<open>
  Claim C3 as it is written compares the shared fraction with each variant's own allele
  fraction. With two variants of fraction \<open>1/4\<close> at one position and the shared fraction
  \<open>3/8\<close>, neither variant passes on its own fraction, and the code applies the second
  one, because \<open>3/8\<close> is at most \<open>1/4 + 1/4\<close>.
\<close>

theorem run_loop_own_fraction_counterexample:
  "allelefrac_of (1 / 10) (ex_variant 101 ''C'' ''T'') = 1 / 4 \<and>
   \<not> dle exact_ops (3 / 8) (1 / 4) \<and>
   run_loop exact_ops ex_read (3 / 8) (1 / 10) 5 (dzero exact_ops)
       [ex_variant 101 ''C'' ''G'', ex_variant 101 ''C'' ''T''] walk_init
     = (True, apply_variant ex_read 5 (ex_variant 101 ''C'' ''T'') walk_init) \<and>
   newseq (match_loop exact_ops ex_read (3 / 8) (1 / 10) 5
      (walk_init\<lparr>rpos := 100, vcf_rec_it := [ex_variant 101 ''C'' ''G'', ex_variant 101 ''C'' ''T'']\<rparr>))
     = ''ATGTA''"
  by (simp add: allelefrac_of_def ex_variant_def ex_read_def walk_init_def match_loop.simps
      match_step_def apply_variant_def push_original_def is_var1_before_var2_def Let_def
      ispowerof2_def cstr_at_def exact_ops_def)

section \<open>Properties of a deletion\<close>






section \<open>Unsupported shapes\<close>

text \<open>
  Claim C5 says that a variant of an unsupported shape leaves the base alone: the
  original base and quality are written. The variant \<open>GT\<close> to \<open>GCC\<close> at position 102
  passes the fraction test on \<open>ex_read\<close>. The code writes the message, sets
  \<^verbatim>\<open>is_mutated\<close> and appends nothing, so the base \<open>G\<close> and its quality are missing from
  the output.
\<close>

theorem unsupported_shape_drops_base:
  "mutate exact_ops ex_read (1 / 8) (1 / 10) [ex_variant 102 ''GT'' ''GCC''] walk_init =
     Inr \<lparr>j = 5, qpos = 5, rpos = 105, vcf_rec_it = [], newseq = ''ACTA'',
          newqual = ''5689'', num_kept_reads = 1, num_kept_snv = 0,
          num_kept_mnv = 0, num_kept_ins = 0, num_kept_del = 0,
          num_skip_reads = 0, num_skip_cmatches = 4,
          stderr = [Failed_to_be_processed]\<rparr>"
  by (simp add: mutate_def ex_read_def ex_variant_def walk_init_def match_loop.simps match_step_def
      apply_variant_def push_original_def allelefrac_of_def is_var1_before_var2_def Let_def
      exact_ops_def)

section \<open>The two buffers have equal length\<close>

lemma apply_variant_lengths:
  "length (newseq w) = length (newqual w) \<Longrightarrow>
   length (newseq (apply_variant b n v w)) = length (newqual (apply_variant b n v w))"
  by (auto simp: apply_variant_def Let_def push_original_def)

lemma run_loop_lengths:
  "length (newseq w) = length (newqual w) \<Longrightarrow> run_loop dbl b mp d n a vs w = (m, w') \<Longrightarrow>
   length (newseq w') = length (newqual w')"
  by (induction vs arbitrary: a) (auto simp: Let_def apply_variant_lengths split: if_splits)

lemma match_step_lengths:
  assumes "length (newseq w) = length (newqual w)"
  shows "length (newseq (match_step dbl b mp d n w)) = length (newqual (match_step dbl b mp d n w))"
proof -
  let ?it = "skip_before (core_tid b) (rpos w) (vcf_rec_it w)"
  have "length (newseq w1) = length (newqual w1)"
    if "run_loop dbl b mp d n a vs (w\<lparr>vcf_rec_it := ?it\<rparr>) = (m, w1)" for a vs m w1
    using run_loop_lengths[OF _ that] assms by simp
  then show ?thesis
    using assms
    by (auto simp: match_step_def Let_def push_original_def
             simp del: run_loop.simps run_at.simps
             split: list.splits prod.splits)
qed

lemma match_loop_lengths:
  "length (newseq w) = length (newqual w) \<Longrightarrow>
   length (newseq (match_loop dbl b mp d n w)) = length (newqual (match_loop dbl b mp d n w))"
proof (induction dbl b mp d n w rule: match_loop.induct)
  case (1 dbl b mp d n w)
  show ?case
  proof (cases "j w < n")
    case True
    have "length (newseq ((match_step dbl b mp d n w)\<lparr>j := j (match_step dbl b mp d n w) + 1\<rparr>))
        = length (newqual ((match_step dbl b mp d n w)\<lparr>j := j (match_step dbl b mp d n w) + 1\<rparr>))"
      using match_step_lengths[OF "1.prems"] by simp
    from "1.IH"[OF True refl this] True show ?thesis
      by (subst (1 2) match_loop.simps) (simp add: Let_def)
  next
    case False
    with "1.prems" show ?thesis by (subst (1 2) match_loop.simps) simp
  qed
qed

lemma ins_loop_lengths:
  "length (newseq w) = length (newqual w) \<Longrightarrow>
   length (newseq (ins_loop b n w)) = length (newqual (ins_loop b n w))"
  by (induction n arbitrary: w) (simp_all add: push_original_def)

lemma cigar_loop_lengths:
  "length (newseq w) = length (newqual w) \<Longrightarrow> cigar_loop dbl b mp d cs w = Inr w' \<Longrightarrow>
   length (newseq w') = length (newqual w')"
proof (induction cs arbitrary: w)
  case Nil
  then show ?case by simp
next
  case (Cons c cs)
  obtain op n where c: "c = (op, n)" by (cases c)
  show ?case
    using Cons.prems Cons.IH[of "match_loop dbl b mp d n (w\<lparr>j := 0\<rparr>)"]
      Cons.IH[of "ins_loop b n w"] Cons.IH[of "w\<lparr>qpos := qpos w + n\<rparr>"]
      Cons.IH[of "w\<lparr>rpos := rpos w + int n\<rparr>"] Cons.IH[of w]
      match_loop_lengths[where w = "w\<lparr>j := 0\<rparr>" and dbl = dbl and b = b and mp = mp and d = d and n = n]
      ins_loop_lengths[of w b n]
    by (auto simp: c split: if_splits)
qed

lemma cigar_loop_returns:
  "(\<forall>c \<in> set cs. fst c \<in> {BAM_CMATCH, BAM_CEQUAL, BAM_CDIFF, BAM_CINS, BAM_CSOFT_CLIP, BAM_CDEL, BAM_CHARD_CLIP}) \<Longrightarrow>
   \<exists>w'. cigar_loop dbl b mp d cs w = Inr w'"
proof (induction cs arbitrary: w)
  case Nil
  then show ?case by simp
next
  case (Cons c cs)
  obtain op' n' where c: "c = (op', n')" by (cases c)
  from Cons.prems have rest: "\<forall>c \<in> set cs. fst c \<in> {BAM_CMATCH, BAM_CEQUAL, BAM_CDIFF, BAM_CINS, BAM_CSOFT_CLIP, BAM_CDEL, BAM_CHARD_CLIP}"
    by simp
  from Cons.prems c have "op' \<in> {BAM_CMATCH, BAM_CEQUAL, BAM_CDIFF, BAM_CINS, BAM_CSOFT_CLIP, BAM_CDEL, BAM_CHARD_CLIP}"
    by simp
  then show ?case
    using Cons.IH[OF rest] by (auto simp: c)
qed

text \<open>
  Claim C10. Applying a variant of any shape, a pass through a match position and the
  loop of an insertion operation keep the two buffers at equal length. The walk of a read
  whose operations are all known to the engine returns, and at the end of the walk of any
  read over any window the two buffers have equal length, so that the assertion on their
  sizes in \<^verbatim>\<open>bamrec_write_fastq\<close> does not fail.
\<close>

theorem buffers_equal_length:
  "(length (newseq w) = length (newqual w) \<longrightarrow>
      length (newseq (apply_variant b n v w)) = length (newqual (apply_variant b n v w)) \<and>
      length (newseq (match_step dbl b mutprob d n w)) = length (newqual (match_step dbl b mutprob d n w)) \<and>
      length (newseq (ins_loop b n w)) = length (newqual (ins_loop b n w))) \<and>
   ((\<forall>c \<in> set (bam_get_cigar b).
        fst c \<in> {BAM_CMATCH, BAM_CEQUAL, BAM_CDIFF, BAM_CINS, BAM_CSOFT_CLIP, BAM_CDEL, BAM_CHARD_CLIP})
      \<longrightarrow> (\<exists>w1. mutate dbl b mutprob d window w = Inr w1)) \<and>
   (mutate dbl b mutprob d window w = Inr w' \<longrightarrow>
      length (newseq w') = length (newqual w') \<and>
      bamrec_write_fastq b (newseq w') (newqual w') \<noteq> Inl Assert_qual_seq_size)"
proof -
  have "length (newseq w') = length (newqual w')" if "mutate dbl b mutprob d window w = Inr w'"
    using cigar_loop_lengths[OF _ that[unfolded mutate_def]] by simp
  moreover have "\<exists>w1. mutate dbl b mutprob d window w = Inr w1"
    if "\<forall>c \<in> set (bam_get_cigar b).
        fst c \<in> {BAM_CMATCH, BAM_CEQUAL, BAM_CDIFF, BAM_CINS, BAM_CSOFT_CLIP, BAM_CDEL, BAM_CHARD_CLIP}"
    using cigar_loop_returns[OF that] by (simp add: mutate_def)
  ultimately show ?thesis
    by (auto simp: apply_variant_lengths match_step_lengths ins_loop_lengths
          bamrec_write_fastq_def Let_def)
qed

theorem buffers_equal_length_witness:
  "length (newseq (walk_init :: rat walk)) = length (newqual (walk_init :: rat walk)) \<and>
   length (newseq (apply_variant ex_read 5 (ex_variant 100 ''A'' ''ACC'') walk_init))
     = length (newqual (apply_variant ex_read 5 (ex_variant 100 ''A'' ''ACC'') walk_init)) \<and>
   length (newseq (match_step exact_ops ex_read (1 / 8) (1 / 10) 5 walk_init))
     = length (newqual (match_step exact_ops ex_read (1 / 8) (1 / 10) 5 walk_init)) \<and>
   length (newseq (ins_loop ex_read 5 (walk_init :: rat walk)))
     = length (newqual (ins_loop ex_read 5 (walk_init :: rat walk))) \<and>
   fst ` set (bam_get_cigar ex_read)
     \<subseteq> {BAM_CMATCH, BAM_CEQUAL, BAM_CDIFF, BAM_CINS, BAM_CSOFT_CLIP, BAM_CDEL, BAM_CHARD_CLIP} \<and>
   mutate exact_ops ex_read (1 / 8) (1 / 10) [ex_variant 101 ''C'' ''CTT''] walk_init =
     Inr \<lparr>j = 5, qpos = 5, rpos = 105, vcf_rec_it = [], newseq = ''ACTTGTA'',
          newqual = [CHR ''5'', CHR ''6'', char_of (30::nat), char_of (30::nat), CHR ''7'', CHR ''8'', CHR ''9''],
          num_kept_reads = 1, num_kept_snv = 0,
          num_kept_mnv = 0, num_kept_ins = 1, num_kept_del = 0,
          num_skip_reads = 0, num_skip_cmatches = 4, stderr = [Spiked_ins]\<rparr> \<and>
   length ''ACTTGTA''
     = length [CHR ''5'', CHR ''6'', char_of (30::nat), char_of (30::nat), CHR ''7'', CHR ''8'', CHR ''9''] \<and>
   bamrec_write_fastq ex_read ''ACTTGTA''
       [CHR ''5'', CHR ''6'', char_of (30::nat), char_of (30::nat), CHR ''7'', CHR ''8'', CHR ''9'']
     \<noteq> Inl Assert_qual_seq_size"
proof -
  let ?w' = "\<lparr>j = 5, qpos = 5, rpos = 105, vcf_rec_it = [], newseq = ''ACTTGTA'',
          newqual = [CHR ''5'', CHR ''6'', char_of (30::nat), char_of (30::nat), CHR ''7'', CHR ''8'', CHR ''9''],
          num_kept_reads = 1, num_kept_snv = 0,
          num_kept_mnv = 0, num_kept_ins = 1, num_kept_del = 0,
          num_skip_reads = 0, num_skip_cmatches = 4, stderr = [Spiked_ins]\<rparr>"
  have run: "mutate exact_ops ex_read (1 / 8) (1 / 10) [ex_variant 101 ''C'' ''CTT''] walk_init = Inr ?w'"
    by (simp add: mutate_def ex_read_def ex_variant_def walk_init_def match_loop.simps match_step_def
      apply_variant_def push_original_def allelefrac_of_def is_var1_before_var2_def Let_def
      ispowerof2_def exact_ops_def)
  have init: "length (newseq (walk_init :: rat walk)) = length (newqual (walk_init :: rat walk))"
    by (simp add: walk_init_def)
  have ops: "fst ` set (bam_get_cigar ex_read)
     \<subseteq> {BAM_CMATCH, BAM_CEQUAL, BAM_CDIFF, BAM_CINS, BAM_CSOFT_CLIP, BAM_CDEL, BAM_CHARD_CLIP}"
    by (simp add: ex_read_def)
  show ?thesis
    using buffers_equal_length[where w = walk_init and b = ex_read and n = 5
        and v = "ex_variant 100 ''A'' ''ACC''" and dbl = exact_ops and mutprob = "1 / 8" and d = "1 / 10"
        and window = "[ex_variant 101 ''C'' ''CTT'']" and w' = ?w']
      run init ops
    by simp
qed

section \<open>Alignment operations that the engine does not know\<close>

lemma cigar_loop_abort:
  "(cigar_op, n) \<in> set cs \<Longrightarrow>
   cigar_op \<notin> {BAM_CMATCH, BAM_CEQUAL, BAM_CDIFF, BAM_CINS, BAM_CSOFT_CLIP, BAM_CDEL, BAM_CHARD_CLIP} \<Longrightarrow>
   cigar_loop dbl b mp d cs w = Inl Abort_invalid_cigar"
proof (induction cs arbitrary: w)
  case Nil
  then show ?case by simp
next
  case (Cons c cs)
  obtain op' n' where c: "c = (op', n')" by (cases c)
  show ?case
  proof (cases "(cigar_op, n) = c")
    case True
    with Cons.prems(2) c show ?thesis by auto
  next
    case False
    with Cons.prems(1) have "(cigar_op, n) \<in> set cs" by simp
    from Cons.IH[OF this Cons.prems(2)] show ?thesis by (simp add: c)
  qed
qed

text \<open>
  Claim C7, as the code has it. A read that is not skipped as secondary or supplementary,
  whose window is not empty after the synchronizer has run, and whose operation list
  holds an operation other than match, equal, diff, insertion, soft clip, deletion and
  hard clip, ends the process with \<^verbatim>\<open>abort()\<close> and is not written. A read that is skipped
  or whose window is empty never meets this abort: a skipped read leaves the state as it
  is and writes nothing, and a read with an empty window is handed to the bypass, whose
  result does not depend on the operations of the read.
\<close>

theorem unknown_operation_aborts:
  "(core_flag b AND 0x900 = 0 \<and> vcf_list (synchronize b s) \<noteq> [] \<and>
    (cigar_op, n) \<in> set (bam_get_cigar b) \<and>
    cigar_op \<notin> {BAM_CMATCH, BAM_CEQUAL, BAM_CDIFF, BAM_CINS, BAM_CSOFT_CLIP, BAM_CDEL, BAM_CHARD_CLIP}
      \<longrightarrow> main_iter dbl h wh d b (s, w) = Inl Abort_invalid_cigar) \<and>
   (core_flag b' AND 0x900 \<noteq> 0 \<or> vcf_list (synchronize b' s') = []
      \<longrightarrow> main_iter dbl h wh d b' (s', w) \<noteq> Inl Abort_invalid_cigar) \<and>
   (core_flag b' AND 0x900 \<noteq> 0
      \<longrightarrow> main_iter dbl h wh d b' (s', w) = Inr ((s', w), None)) \<and>
   (core_flag b' AND 0x900 = 0 \<and> vcf_list (synchronize b' s') = []
      \<longrightarrow> main_iter dbl h wh d b' (s', w) =
            (case bamrec_write_fastq_raw b' of
               Inl e \<Rightarrow> Inl e
             | Inr fq \<Rightarrow> Inr ((synchronize b' s', w\<lparr>newseq := [], newqual := []\<rparr>), Some fq)))"
proof -
  have "main_iter dbl h wh d b (s, w) = Inl Abort_invalid_cigar"
    if "core_flag b AND 0x900 = 0" and "vcf_list (synchronize b s) \<noteq> []"
      and "(cigar_op, n) \<in> set (bam_get_cigar b)"
      and "cigar_op \<notin> {BAM_CMATCH, BAM_CEQUAL, BAM_CDIFF, BAM_CINS, BAM_CSOFT_CLIP, BAM_CDEL, BAM_CHARD_CLIP}"
    using that(1,2)
    by (simp add: main_iter_def mutate_def Let_def cigar_loop_abort[OF that(3,4)] split: prod.splits)
  moreover have "main_iter dbl h wh d b' (s', w) \<noteq> Inl Abort_invalid_cigar"
    if "core_flag b' AND 0x900 \<noteq> 0 \<or> vcf_list (synchronize b' s') = []"
    using that
    by (auto simp: main_iter_def Let_def bamrec_write_fastq_raw_def split: prod.splits sum.splits if_splits)
  moreover have "main_iter dbl h wh d b' (s', w) = Inr ((s', w), None)"
    if "core_flag b' AND 0x900 \<noteq> 0"
    using that by (simp add: main_iter_def)
  moreover have "main_iter dbl h wh d b' (s', w) =
            (case bamrec_write_fastq_raw b' of
               Inl e \<Rightarrow> Inl e
             | Inr fq \<Rightarrow> Inr ((synchronize b' s', w\<lparr>newseq := [], newqual := []\<rparr>), Some fq))"
    if "core_flag b' AND 0x900 = 0" and "vcf_list (synchronize b' s') = []"
    using that by (simp add: main_iter_def Let_def split: prod.splits)
  ultimately show ?thesis by blast
qed

theorem unknown_operation_aborts_witness:
  "core_flag ex_read_skip AND 0x900 = 0 \<and>
   vcf_list (synchronize ex_read_skip (vcf_init [ex_variant 101 ''C'' ''T'', ex_variant 110 ''C'' ''T'']))
     = [ex_variant 110 ''C'' ''T''] \<and>
   (BAM_CREF_SKIP, 10) \<in> set (bam_get_cigar ex_read_skip) \<and>
   main_iter exact_ops (\<lambda>s. 0) (\<lambda>k. k) (1 / 10) ex_read_skip
       (vcf_init [ex_variant 101 ''C'' ''T'', ex_variant 110 ''C'' ''T''], walk_init)
     = Inl Abort_invalid_cigar \<and>
   vcf_list (synchronize ex_read_skip (vcf_init [] :: rat vcf_state)) = [] \<and>
   main_iter exact_ops (\<lambda>s. 0) (\<lambda>k. k) (1 / 10) ex_read_skip (vcf_init [], walk_init)
     \<noteq> Inl Abort_invalid_cigar \<and>
   main_iter exact_ops (\<lambda>s. 0) (\<lambda>k. k) (1 / 10) ex_read_skip (vcf_init [], walk_init) =
     (case bamrec_write_fastq_raw ex_read_skip of
        Inl e \<Rightarrow> Inl e
      | Inr fq \<Rightarrow> Inr ((synchronize ex_read_skip (vcf_init []),
                        walk_init\<lparr>newseq := [], newqual := []\<rparr>), Some fq)) \<and>
   core_flag (ex_read_skip\<lparr>core_flag := 0x100\<rparr>) AND 0x900 \<noteq> 0 \<and>
   main_iter exact_ops (\<lambda>s. 0) (\<lambda>k. k) (1 / 10) (ex_read_skip\<lparr>core_flag := 0x100\<rparr>)
       (vcf_init [ex_variant 101 ''C'' ''T'', ex_variant 110 ''C'' ''T''], walk_init)
     = Inr ((vcf_init [ex_variant 101 ''C'' ''T'', ex_variant 110 ''C'' ''T''], walk_init), None)"
proof -
  let ?s = "vcf_init [ex_variant 101 ''C'' ''T'', ex_variant 110 ''C'' ''T'']"
  have flag: "core_flag ex_read_skip AND 0x900 = 0" by (simp add: ex_read_skip_def)
  have win: "vcf_list (synchronize ex_read_skip ?s) = [ex_variant 110 ''C'' ''T'']"
    by (simp add: ex_read_skip_def ex_variant_def vcf_init_def synchronize_def skip_ahead.simps
        fetch_ahead.simps vcf_read_def is_var1_before_var2_def Let_def)
  have op: "(BAM_CREF_SKIP, 10) \<in> set (bam_get_cigar ex_read_skip)"
    by (simp add: ex_read_skip_def)
  have empty: "vcf_list (synchronize ex_read_skip (vcf_init [] :: rat vcf_state)) = []"
    by (simp add: ex_read_skip_def ex_variant_def vcf_init_def synchronize_def skip_ahead.simps
        fetch_ahead.simps vcf_read_def is_var1_before_var2_def Let_def)
  have sec: "core_flag (ex_read_skip\<lparr>core_flag := 0x100\<rparr>) AND 0x900 \<noteq> 0" by simp
  note t1 = unknown_operation_aborts[where b = ex_read_skip and s = ?s and cigar_op = BAM_CREF_SKIP
        and n = 10 and dbl = exact_ops and h = "\<lambda>s. 0" and wh = "\<lambda>k. k" and d = "1 / 10"
        and w = walk_init and b' = ex_read_skip and s' = "vcf_init []"]
  note t2 = unknown_operation_aborts[where b = ex_read_skip and s = ?s and cigar_op = BAM_CREF_SKIP
        and n = 10 and dbl = exact_ops and h = "\<lambda>s. 0" and wh = "\<lambda>k. k" and d = "1 / 10"
        and w = walk_init and b' = "ex_read_skip\<lparr>core_flag := 0x100\<rparr>" and s' = ?s]
  from t1 flag win op
  have abort: "main_iter exact_ops (\<lambda>s. 0) (\<lambda>k. k) (1 / 10) ex_read_skip (?s, walk_init)
                 = Inl Abort_invalid_cigar"
    by simp
  from t1 empty
  have ne: "main_iter exact_ops (\<lambda>s. 0) (\<lambda>k. k) (1 / 10) ex_read_skip (vcf_init [], walk_init)
              \<noteq> Inl Abort_invalid_cigar"
    by blast
  from t1 flag empty
  have byp: "main_iter exact_ops (\<lambda>s. 0) (\<lambda>k. k) (1 / 10) ex_read_skip (vcf_init [], walk_init) =
     (case bamrec_write_fastq_raw ex_read_skip of
        Inl e \<Rightarrow> Inl e
      | Inr fq \<Rightarrow> Inr ((synchronize ex_read_skip (vcf_init []),
                        walk_init\<lparr>newseq := [], newqual := []\<rparr>), Some fq))"
    by blast
  from t2 sec
  have skip: "main_iter exact_ops (\<lambda>s. 0) (\<lambda>k. k) (1 / 10) (ex_read_skip\<lparr>core_flag := 0x100\<rparr>)
       (?s, walk_init) = Inr ((?s, walk_init), None)"
    by blast
  from flag win op abort empty ne byp sec skip show ?thesis
    by (intro conjI)
qed

text \<open>
  Claim C7 as it is written aborts on every read with such an operation. The read
  \<open>ex_read_skip\<close> holds a reference skip; with no variant in the source its window is
  empty and the read is written.
\<close>

theorem unknown_operation_emitted_counterexample:
  "(BAM_CREF_SKIP, 10) \<in> set (bam_get_cigar ex_read_skip) \<and>
   main_iter exact_ops (\<lambda>s. 0) (\<lambda>k. k) (1 / 10) ex_read_skip (vcf_init [], walk_init) =
     Inr (((vcf_init [])\<lparr>vcf_read_ret := - 1\<rparr>, walk_init),
          Some \<lparr>outfile = R1file, line_name = ''r3#ACGT'', line_seq = ''ACGTA'', line_qual = ''VWXYZ''\<rparr>)"
  by code_simp

section \<open>The bypass for an empty window\<close>

lemma THE_REV_COMPLEMENT_of_char:
  "THE_REV_COMPLEMENT (of_char c) =
     (if c = CHR ''g'' then CHR ''c'' else if c = CHR ''c'' then CHR ''g''
      else if c = CHR ''t'' then CHR ''a'' else if c = CHR ''a'' then CHR ''t''
      else if c = CHR ''G'' then CHR ''C'' else if c = CHR ''C'' then CHR ''G''
      else if c = CHR ''T'' then CHR ''A'' else if c = CHR ''A'' then CHR ''T'' else c)"
  unfolding THE_REV_COMPLEMENT_def
  by (simp only: fun_upd_apply of_char_eq_iff char_of_char)

lemma gt_space_complement: "gt_space (THE_REV_COMPLEMENT (of_char c)) = gt_space c"
  by (simp add: THE_REV_COMPLEMENT_of_char) (simp add: gt_space_def)

lemma list_all_gt_space_revcomp:
  "list_all gt_space (complement (reverse s)) = list_all gt_space s"
  by (simp add: complement_def reverse_eq_rev list_all_iff gt_space_complement)

lemma match_step_empty:
  "vcf_rec_it w = [] \<Longrightarrow>
   match_step dbl b mp d n w =
     (push_original b w)\<lparr>num_skip_cmatches := num_skip_cmatches w + 1,
                          qpos := qpos w + 1, rpos := rpos w + 1\<rparr>"
  by (simp add: match_step_def Let_def push_original_def)

lemma match_loop_copied:
  "copied b w \<Longrightarrow> j w \<le> n \<Longrightarrow>
   copied b (match_loop dbl b mp d n w) \<and> qpos (match_loop dbl b mp d n w) = qpos w + (n - j w)"
proof (induction dbl b mp d n w rule: match_loop.induct)
  case (1 dbl b mp d n w)
  show ?case
  proof (cases "j w < n")
    case True
    let ?w1 = "match_step dbl b mp d n w"
    let ?w2 = "?w1\<lparr>j := j ?w1 + 1\<rparr>"
    have empty: "vcf_rec_it w = []" using "1.prems"(1) by (simp add: copied_def)
    have c2: "copied b ?w2"
      using "1.prems"(1) by (simp add: match_step_empty[OF empty] copied_def push_original_def)
    have j2: "j ?w2 \<le> n" using True by (simp add: match_step_empty[OF empty] push_original_def)
    have q2: "qpos ?w2 + (n - j ?w2) = qpos w + (n - j w)"
      using True by (simp add: match_step_empty[OF empty] push_original_def)
    from "1.IH"[OF True refl c2 j2] q2 True show ?thesis
      by (subst (1 2) match_loop.simps) (simp add: Let_def)
  next
    case False
    with "1.prems" show ?thesis by (subst (1 2) match_loop.simps) simp
  qed
qed

lemma ins_loop_copied:
  "copied b w \<Longrightarrow> copied b (ins_loop b n w) \<and> qpos (ins_loop b n w) = qpos w + n"
proof (induction n arbitrary: w)
  case 0
  then show ?case by simp
next
  case (Suc n)
  have "copied b ((push_original b w)\<lparr>qpos := qpos w + 1\<rparr>)"
    using Suc.prems by (simp add: copied_def push_original_def)
  from Suc.IH[OF this] show ?case by (simp add: push_original_def)
qed

lemma cigar_loop_copied:
  "copied b w \<Longrightarrow>
   \<forall>c \<in> set cs. fst c \<in> {BAM_CMATCH, BAM_CEQUAL, BAM_CDIFF, BAM_CINS, BAM_CDEL, BAM_CHARD_CLIP} \<Longrightarrow>
   \<exists>w'. cigar_loop dbl b mp d cs w = Inr w' \<and> copied b w' \<and> qpos w' = qpos w + query_consumed cs"
proof (induction cs arbitrary: w)
  case Nil
  then show ?case by simp
next
  case (Cons c cs)
  obtain op' n' where c: "c = (op', n')" by (cases c)
  from Cons.prems(2) have rest:
    "\<forall>c \<in> set cs. fst c \<in> {BAM_CMATCH, BAM_CEQUAL, BAM_CDIFF, BAM_CINS, BAM_CDEL, BAM_CHARD_CLIP}"
    by simp
  from Cons.prems(2) c have op':
    "op' \<in> {BAM_CMATCH, BAM_CEQUAL, BAM_CDIFF, BAM_CINS, BAM_CDEL, BAM_CHARD_CLIP}"
    by simp
  have start: "copied b (w\<lparr>j := 0\<rparr>)" using Cons.prems(1) by (simp add: copied_def)
  have del: "copied b (w\<lparr>rpos := rpos w + int n'\<rparr>)" using Cons.prems(1) by (simp add: copied_def)
  have m: "copied b (match_loop dbl b mp d n' (w\<lparr>j := 0\<rparr>)) \<and>
           qpos (match_loop dbl b mp d n' (w\<lparr>j := 0\<rparr>)) = qpos w + n'"
    using match_loop_copied[OF start, where n = n' and dbl = dbl and mp = mp and d = d] by simp
  note i = ins_loop_copied[OF Cons.prems(1), of n']
  consider "op' \<in> {BAM_CMATCH, BAM_CEQUAL, BAM_CDIFF}" | "op' = BAM_CINS" | "op' = BAM_CDEL" | "op' = BAM_CHARD_CLIP"
    using op' by auto
  then show ?case
  proof cases
    case 1
    with Cons.IH[OF conjunct1[OF m] rest] m show ?thesis by (auto simp: c)
  next
    case 2
    with Cons.IH[OF conjunct1[OF i] rest] i show ?thesis by (auto simp: c)
  next
    case 3
    with Cons.IH[OF del rest] show ?thesis by (auto simp: c)
  next
    case 4
    with Cons.IH[OF Cons.prems(1) rest] show ?thesis by (auto simp: c)
  qed
qed

text \<open>
  Claim C6, as the code has it. For a read whose operations are match, equal, diff,
  insertion, deletion and hard clip only, and whose query-consuming lengths add up to the
  length of its sequence, the walk over an empty window followed by
  \<^verbatim>\<open>bamrec_write_fastq\<close> writes what the bypass \<^verbatim>\<open>bamrec_write_fastq_raw\<close> writes. What
  the bypass writes is the original sequence and the original qualities plus 33, set to
  the strand of the read.
\<close>

theorem empty_window_bypass:
  "((\<forall>c \<in> set (bam_get_cigar b).
        fst c \<in> {BAM_CMATCH, BAM_CEQUAL, BAM_CDIFF, BAM_CINS, BAM_CDEL, BAM_CHARD_CLIP}) \<and>
    query_consumed (bam_get_cigar b) = core_l_qseq b
      \<longrightarrow> (case mutate dbl b mutprob d [] w of
              Inl e \<Rightarrow> Inl e
            | Inr w' \<Rightarrow> bamrec_write_fastq b (newseq w') (newqual w'))
           = bamrec_write_fastq_raw b) \<and>
   (bamrec_write_fastq_raw b' = Inr fq
      \<longrightarrow> line_seq fq =
            (if core_flag b' AND 0x10 \<noteq> 0
             then complement (rev (map (bam_get_seq b') [0 ..< core_l_qseq b']))
             else map (bam_get_seq b') [0 ..< core_l_qseq b']) \<and>
          line_qual fq =
            (if core_flag b' AND 0x10 \<noteq> 0
             then rev (map (\<lambda>i. plus33 (bam_get_qual b' i)) [0 ..< core_l_qseq b'])
             else map (\<lambda>i. plus33 (bam_get_qual b' i)) [0 ..< core_l_qseq b']))"
proof -
  have eq: "(case mutate dbl b mutprob d [] w of
              Inl e \<Rightarrow> Inl e
            | Inr w' \<Rightarrow> bamrec_write_fastq b (newseq w') (newqual w'))
           = bamrec_write_fastq_raw b"
    if ops: "\<forall>c \<in> set (bam_get_cigar b).
        fst c \<in> {BAM_CMATCH, BAM_CEQUAL, BAM_CDIFF, BAM_CINS, BAM_CDEL, BAM_CHARD_CLIP}"
      and len: "query_consumed (bam_get_cigar b) = core_l_qseq b"
  proof -
    let ?w0 = "w\<lparr>newseq := [], newqual := [], qpos := 0, rpos := core_pos b, vcf_rec_it := []\<rparr>"
    have "copied b ?w0" by (simp add: copied_def)
    from cigar_loop_copied[OF this ops, where dbl = dbl and mp = mutprob and d = d] len
    obtain w' where run: "mutate dbl b mutprob d [] w = Inr w'"
      and seq': "newseq w' = map (bam_get_seq b) [0 ..< core_l_qseq b]"
      and qual': "newqual w' = map (bam_get_qual b) [0 ..< core_l_qseq b]"
      by (auto simp: mutate_def copied_def)
    show ?thesis
      by (simp add: run seq' qual' bamrec_write_fastq_def bamrec_write_fastq_raw_def Let_def
          list_all_gt_space_revcomp comp_def)
  qed
  have raw: "line_seq fq =
            (if core_flag b' AND 0x10 \<noteq> 0
             then complement (rev (map (bam_get_seq b') [0 ..< core_l_qseq b']))
             else map (bam_get_seq b') [0 ..< core_l_qseq b']) \<and>
          line_qual fq =
            (if core_flag b' AND 0x10 \<noteq> 0
             then rev (map (\<lambda>i. plus33 (bam_get_qual b' i)) [0 ..< core_l_qseq b'])
             else map (\<lambda>i. plus33 (bam_get_qual b' i)) [0 ..< core_l_qseq b'])"
    if "bamrec_write_fastq_raw b' = Inr fq"
    using that
    by (auto simp: bamrec_write_fastq_raw_def Let_def reverse_eq_rev split: if_splits)
  from eq raw show ?thesis by blast
qed

theorem empty_window_bypass_witness:
  "fst ` set (bam_get_cigar ex_read_rev)
     \<subseteq> {BAM_CMATCH, BAM_CEQUAL, BAM_CDIFF, BAM_CINS, BAM_CDEL, BAM_CHARD_CLIP} \<and>
   query_consumed (bam_get_cigar ex_read_rev) = core_l_qseq ex_read_rev \<and>
   (case mutate exact_ops ex_read_rev (1 / 8) (1 / 10) [] walk_init of
      Inl e \<Rightarrow> Inl e
    | Inr w' \<Rightarrow> bamrec_write_fastq ex_read_rev (newseq w') (newqual w'))
     = bamrec_write_fastq_raw ex_read_rev \<and>
   bamrec_write_fastq_raw ex_read_rev =
     Inr \<lparr>outfile = R1file, line_name = ''r4#ACGT'', line_seq = ''TACGT'', line_qual = ''ZYXWV''\<rparr> \<and>
   core_flag ex_read_rev AND 0x10 \<noteq> 0 \<and>
   ''TACGT'' = complement (rev (map (bam_get_seq ex_read_rev) [0 ..< core_l_qseq ex_read_rev])) \<and>
   ''ZYXWV'' = rev (map (\<lambda>i. plus33 (bam_get_qual ex_read_rev i)) [0 ..< core_l_qseq ex_read_rev])"
proof -
  let ?fq = "\<lparr>outfile = R1file, line_name = ''r4#ACGT'', line_seq = ''TACGT'', line_qual = ''ZYXWV''\<rparr>"
  have ops: "\<forall>c \<in> set (bam_get_cigar ex_read_rev).
      fst c \<in> {BAM_CMATCH, BAM_CEQUAL, BAM_CDIFF, BAM_CINS, BAM_CDEL, BAM_CHARD_CLIP}"
    by (simp add: ex_read_rev_def)
  have ops': "fst ` set (bam_get_cigar ex_read_rev)
     \<subseteq> {BAM_CMATCH, BAM_CEQUAL, BAM_CDIFF, BAM_CINS, BAM_CDEL, BAM_CHARD_CLIP}"
    by (simp add: ex_read_rev_def)
  have len: "query_consumed (bam_get_cigar ex_read_rev) = core_l_qseq ex_read_rev"
    by (simp add: ex_read_rev_def)
  have raw: "bamrec_write_fastq_raw ex_read_rev = Inr ?fq"
    by code_simp
  have flag: "core_flag ex_read_rev AND 0x10 \<noteq> 0" by (simp add: ex_read_rev_def)
  note t = empty_window_bypass[where b = ex_read_rev and dbl = exact_ops and mutprob = "1 / 8"
      and d = "1 / 10" and w = walk_init and b' = ex_read_rev and fq = ?fq]
  from t ops len have same: "(case mutate exact_ops ex_read_rev (1 / 8) (1 / 10) [] walk_init of
      Inl e \<Rightarrow> Inl e
    | Inr w' \<Rightarrow> bamrec_write_fastq ex_read_rev (newseq w') (newqual w'))
     = bamrec_write_fastq_raw ex_read_rev"
    by blast
  from t raw flag have lines:
    "''TACGT'' = complement (rev (map (bam_get_seq ex_read_rev) [0 ..< core_l_qseq ex_read_rev]))"
    "''ZYXWV'' = rev (map (\<lambda>i. plus33 (bam_get_qual ex_read_rev i)) [0 ..< core_l_qseq ex_read_rev])"
    by simp_all
  from ops' len same raw flag lines show ?thesis by blast
qed

text \<open>
  Claim C6 as it is written holds for every read. The read \<open>ex_read_clip\<close> starts with a
  soft clip of length 1: the bypass writes all five bases, and the walk over an empty
  window followed by the normal emission writes the four bases after the clip.
\<close>

theorem soft_clip_bypass_counterexample:
  "bamrec_write_fastq_raw ex_read_clip =
     Inr \<lparr>outfile = R1file, line_name = ''r5#ACGT'', line_seq = ''ACGTA'', line_qual = ''VWXYZ''\<rparr> \<and>
   (case mutate exact_ops ex_read_clip (1 / 8) (1 / 10) [] walk_init of
      Inl e \<Rightarrow> Inl e
    | Inr w' \<Rightarrow> bamrec_write_fastq ex_read_clip (newseq w') (newqual w')) =
     Inr \<lparr>outfile = R1file, line_name = ''r5#ACGT'', line_seq = ''CGTA'', line_qual = ''WXYZ''\<rparr>"
  by code_simp

end
